theory Spec2Isabelle
  imports Main "HOL-Library.AList" "HOL-Library.Multiset" "HOL-Library.Product_Lexorder"
begin

section \<open>The self-indexing registry of \<^verbatim>\<open>utils/registry/registry.js\<close>\<close>

text \<open>
  A \<^verbatim>\<open>Registry\<close> is an array-like object (its prototype chain ends in
  \<^verbatim>\<open>Array.prototype\<close>) that keeps a plain array \<^verbatim>\<open>this.raw\<close> beside
  its own indexed elements, and exposes one accessor property per configured path. Each
  accessor closes over a private \<^verbatim>\<open>cache\<close> variable. The six array methods with
  side effects are wrapped so that they run on the object, reset every cache and then run on
  \<^verbatim>\<open>this.raw\<close>.

  The embedding passes the object's state explicitly. Records of the collection are values of
  an arbitrary type \<open>'a\<close>; the keys that a path getter resolves are values of a linearly
  ordered type \<open>'k\<close>. Names of views are strings, and are taken to be different from the
  names of the object's other properties (\<^verbatim>\<open>raw\<close>, \<^verbatim>\<open>_indexNames\<close>,
  \<^verbatim>\<open>length\<close>, the element indices and the methods).
\<close>

subsection \<open>The un-wrapped primitives of \<^verbatim>\<open>Array.prototype\<close>\<close>

text \<open>
  The six method names of line 117, in the order of the source string.
\<close>

datatype method_name = Pop | Push | Shift | Splice | Unshift | Reverse

text \<open>
  A call is a method together with its \<^verbatim>\<open>arguments\<close>. \<^verbatim>\<open>pop\<close>,
  \<^verbatim>\<open>shift\<close> and \<^verbatim>\<open>reverse\<close> ignore their arguments. The numeric arguments of
  \<^verbatim>\<open>splice\<close> are given after the coercion to an integer that the primitive performs
  (an infinite value behaves as any integer beyond the length); \<^verbatim>\<open>splice\<close> looks at
  how many arguments it has received, hence three forms.
\<close>

datatype 'a call =
    CPop
  | CPush "'a list"
  | CShift
  | CSplice0
  | CSplice1 int
  | CSplice int int "'a list"
  | CUnshift "'a list"
  | CReverse

fun method_of :: "'a call \<Rightarrow> method_name" where
  "method_of CPop = Pop"
| "method_of (CPush ys) = Push"
| "method_of CShift = Shift"
| "method_of CSplice0 = Splice"
| "method_of (CSplice1 s) = Splice"
| "method_of (CSplice s d ys) = Splice"
| "method_of (CUnshift ys) = Unshift"
| "method_of CReverse = Reverse"

text \<open>
  What a primitive returns: \<^verbatim>\<open>undefined\<close> (\<^verbatim>\<open>pop\<close> and \<^verbatim>\<open>shift\<close> of an
  empty sequence), the removed element, the new length, or an array (the removed elements for
  \<^verbatim>\<open>splice\<close>; the receiver itself, given by its content, for \<^verbatim>\<open>reverse\<close>).
\<close>

datatype 'a result = RUndefined | RElement 'a | RLength nat | RArray "'a list"

definition actualStart :: "int \<Rightarrow> nat \<Rightarrow> nat" where
  "actualStart relativeStart len =
     (if relativeStart < 0 then nat (max (int len + relativeStart) 0)
      else nat (min relativeStart (int len)))"

definition actualDeleteCount :: "int \<Rightarrow> nat \<Rightarrow> nat \<Rightarrow> nat" where
  "actualDeleteCount deleteCount len start =
     nat (min (max deleteCount 0) (int len - int start))"

definition splice_at :: "nat \<Rightarrow> nat \<Rightarrow> 'a list \<Rightarrow> 'a list \<Rightarrow> 'a result \<times> 'a list" where
  "splice_at start del ys xs =
     (RArray (take del (drop start xs)), take start xs @ ys @ drop (start + del) xs)"

text \<open>
  \<^verbatim>\<open>orig\<close> is \<^verbatim>\<open>Array.prototype[method]\<close> applied to a receiver whose content
  is the list: it gives the returned value and the receiver's new content.
\<close>

fun orig :: "'a call \<Rightarrow> 'a list \<Rightarrow> 'a result \<times> 'a list" where
  "orig CPop xs = (if xs = [] then (RUndefined, []) else (RElement (last xs), butlast xs))"
| "orig (CPush ys) xs = (RLength (length xs + length ys), xs @ ys)"
| "orig CShift xs = (case xs of [] \<Rightarrow> (RUndefined, []) | x # xs' \<Rightarrow> (RElement x, xs'))"
| "orig CSplice0 xs = splice_at (actualStart 0 (length xs)) 0 [] xs"
| "orig (CSplice1 s) xs =
     (let start = actualStart s (length xs) in splice_at start (length xs - start) [] xs)"
| "orig (CSplice s d ys) xs =
     (let start = actualStart s (length xs)
      in splice_at start (actualDeleteCount d (length xs) start) ys xs)"
| "orig (CUnshift ys) xs = (RLength (length ys + length xs), ys @ xs)"
| "orig CReverse xs = (RArray (rev xs), rev xs)"

subsection \<open>The view builders\<close>

text \<open>
  The three functions that the constructor hands to \<^verbatim>\<open>_setupIndices\<close> as
  \<^verbatim>\<open>op\<close> (lines 34 to 36).
\<close>

datatype view_op = GroupBy | IndexBy | SortBy

text \<open>
  The value of a view: an object from keys to lists of records, an object from keys to
  records, or an array of records.
\<close>

datatype ('k, 'a) view_value =
    Grouped "'k \<Rightarrow> 'a list option"
  | Indexed "'k \<Rightarrow> 'a option"
  | Ordered "'a list"

text \<open>
  Modelled from the spec: \<^verbatim>\<open>_.groupBy\<close> belongs to the lodash library, which is
  not among the sources. The glossary: a group-by view ``maps each resolved key to the list of
  all records sharing that key, preserving relative order within each group''.
\<close>

definition groupBy :: "'a list \<Rightarrow> ('a \<Rightarrow> 'k) \<Rightarrow> 'k \<Rightarrow> 'a list option" where
  "groupBy xs f k =
     (let g = filter (\<lambda>x. f x = k) xs in if g = [] then None else Some g)"

text \<open>
  Modelled from the spec: \<^verbatim>\<open>_.indexBy\<close> belongs to the lodash library, which is
  not among the sources. The overview: index-by-key is ``one-to-one, last-write-wins on
  collision''; the glossary: it ``maps each resolved key to a single record; on duplicate keys,
  the most recently inserted record wins''. The records are written into the mapping one after
  the other, in the order of the sequence.
\<close>

definition indexBy :: "'a list \<Rightarrow> ('a \<Rightarrow> 'k) \<Rightarrow> 'k \<Rightarrow> 'a option" where
  "indexBy xs f = fold (\<lambda>x m. m(f x \<mapsto> x)) xs Map.empty"

text \<open>
  Modelled from the spec: \<^verbatim>\<open>_.sortBy\<close> belongs to the lodash library, which is
  not among the sources. The glossary: an order-by view is ``a new sequence containing all
  records sorted ascending by resolved key, ties broken by original relative order''. Each
  record is paired with its resolved key and its original position, the pairs are sorted
  ascending by key and then position, and the records are read off.
\<close>

definition decorate :: "('a \<Rightarrow> 'k) \<Rightarrow> 'a list \<Rightarrow> (('k \<times> nat) \<times> 'a) list" where
  "decorate f xs = map (\<lambda>(i, x). ((f x, i), x)) (enumerate 0 xs)"

definition sortBy :: "'a list \<Rightarrow> ('a \<Rightarrow> 'k::linorder) \<Rightarrow> 'a list" where
  "sortBy xs f = map snd (sort_key fst (decorate f xs))"

fun apply_op :: "view_op \<Rightarrow> 'a list \<Rightarrow> ('a \<Rightarrow> 'k::linorder) \<Rightarrow> ('k, 'a) view_value" where
  "apply_op GroupBy xs f = Grouped (groupBy xs f)"
| "apply_op IndexBy xs f = Indexed (indexBy xs f)"
| "apply_op SortBy xs f = Ordered (sortBy xs f)"

subsection \<open>Errors\<close>

text \<open>
  The three ways in which the code throws. All three are a \<^verbatim>\<open>TypeError\<close> in
  JavaScript: \<open>CannotRedefine\<close> is thrown by \<^verbatim>\<open>Object.defineProperty\<close> for a
  name that already holds a non-configurable property (the specification's
  \<^verbatim>\<open>ConfigurationError\<close>), \<open>CannotSet\<close> by the setter of line 83 (the
  specification's \<^verbatim>\<open>ImmutableViewError\<close>), and \<open>NotAFunction\<close> by the call of
  a property whose value is \<^verbatim>\<open>undefined\<close>.
\<close>

datatype error = CannotRedefine string | CannotSet string | NotAFunction method_name

subsection \<open>The accessor properties\<close>

text \<open>
  The values that can be assigned to a property: the object \<^verbatim>\<open>CLEAR_CACHE\<close> of
  line 11, which lives in the module's closure, and every other value.
\<close>

datatype 'v jsval = CLEAR_CACHE | Val 'v

text \<open>
  The content of the variable \<^verbatim>\<open>cache\<close> of line 72: \<^verbatim>\<open>undefined\<close> after
  its declaration, \<^verbatim>\<open>false\<close> after the setter has run, or the object that the
  builder returned. An object has an identity: the number of builder calls that came before
  the call that made it.
\<close>

datatype ('k, 'a) cache = JsUndefined | JsFalse | JsObject nat "('k, 'a) view_value"

fun truthy :: "('k, 'a) cache \<Rightarrow> bool" where
  "truthy JsUndefined = False"
| "truthy JsFalse = False"
| "truthy (JsObject ref val) = True"

text \<open>
  The closure of one accessor: \<^verbatim>\<open>from\<close> (the path getter of the property),
  \<^verbatim>\<open>op\<close> and \<^verbatim>\<open>cache\<close>.
\<close>

record ('k, 'a) view =
  v_from :: "'a \<Rightarrow> 'k"
  v_op :: view_op
  v_cache :: "('k, 'a) cache"

text \<open>
  The state of a registry: its own elements (the public sequence), \<^verbatim>\<open>this.raw\<close>,
  the accessors in the order of their definition, \<^verbatim>\<open>this._indexNames\<close>, the methods
  that an own property with the value \<^verbatim>\<open>undefined\<close> hides, and the number of
  builder calls so far. Beside the registry's own parts stand two that belong to its callers:
  the names under which a caller has defined a setter of its own on the object, and whether
  such a setter has been handed the object \<^verbatim>\<open>CLEAR_CACHE\<close>.
\<close>

record ('k, 'a) registry =
  elems :: "'a list"
  raw :: "'a list"
  props :: "(string \<times> ('k, 'a) view) list"
  indexNames :: "string list"
  hidden :: "method_name list"
  allocs :: nat
  foreign :: "string list"
  leaked :: bool

text \<open>The setter of lines 78 to 85, on the closure of the accessor named \<open>to\<close>.\<close>

definition setter :: "string \<Rightarrow> 'v jsval \<Rightarrow> ('k, 'a) view \<Rightarrow> error + ('k, 'a) view" where
  "setter to val v =
     (if val = CLEAR_CACHE then Inr (v\<lparr>v_cache := JsFalse\<rparr>) else Inl (CannotSet to))"

text \<open>
  The assignment \<^verbatim>\<open>self[name] = val\<close>: the setter of a view's accessor runs. Under
  a name where a caller has defined its own setter, that setter receives the value, and the
  state records the receipt of \<^verbatim>\<open>CLEAR_CACHE\<close>. Any other name gets an ordinary
  property, which is no part of the state modelled here.
\<close>

definition assign ::
  "string \<Rightarrow> 'v jsval \<Rightarrow> ('k, 'a) registry \<Rightarrow> (error + unit) \<times> ('k, 'a) registry" where
  "assign name val r =
     (case map_of (props r) name of
        None \<Rightarrow>
          (Inr (), if name \<in> set (foreign r) \<and> val = CLEAR_CACHE then r\<lparr>leaked := True\<rparr> else r)
      | Some v \<Rightarrow>
          (case setter name val v of
             Inl e \<Rightarrow> (Inl e, r)
           | Inr v' \<Rightarrow> (Inr (), r\<lparr>props := AList.update name v' (props r)\<rparr>)))"

text \<open>
  The getter of lines 86 to 88, \<^verbatim>\<open>cache || (cache = op(self.raw, from))\<close>, reached by
  reading the property \<open>name\<close>. A name without accessor reads as \<^verbatim>\<open>undefined\<close>.
\<close>

definition read ::
  "string \<Rightarrow> ('k::linorder, 'a) registry \<Rightarrow> ('k, 'a) cache \<times> ('k, 'a) registry" where
  "read name r =
     (case map_of (props r) name of
        None \<Rightarrow> (JsUndefined, r)
      | Some v \<Rightarrow>
          if truthy (v_cache v) then (v_cache v, r)
          else
            (let c = JsObject (allocs r) (apply_op (v_op v) (raw r) (v_from v))
             in (c, r\<lparr>props := AList.update name (v\<lparr>v_cache := c\<rparr>) (props r),
                      allocs := Suc (allocs r)\<rparr>)))"

subsection \<open>Invalidation and the wrapped methods\<close>

text \<open>
  \<^verbatim>\<open>_clearIndices\<close> (lines 102 to 107): \<^verbatim>\<open>forEach\<close> over
  \<^verbatim>\<open>self._indexNames\<close>, assigning \<^verbatim>\<open>CLEAR_CACHE\<close> to each name. An
  exception of an assignment ends the loop.
\<close>

fun clearEach ::
  "string list \<Rightarrow> ('k, 'a) registry \<Rightarrow> (error + unit) \<times> ('k, 'a) registry" where
  "clearEach [] r = (Inr (), r)"
| "clearEach (name # names) r =
     (case assign name (CLEAR_CACHE :: unit jsval) r of
        (Inl e, r') \<Rightarrow> (Inl e, r')
      | (Inr u, r') \<Rightarrow> clearEach names r')"

definition clearIndices :: "('k, 'a) registry \<Rightarrow> (error + unit) \<times> ('k, 'a) registry" where
  "clearIndices r = clearEach (indexNames r) r"

text \<open>
  The wrapper of lines 120 to 129: the original method on \<^verbatim>\<open>this\<close>, then
  \<^verbatim>\<open>_clearIndices\<close>, then the original method on \<^verbatim>\<open>this.raw\<close>, whose
  result is returned.
\<close>

definition wrapped ::
  "'a call \<Rightarrow> ('k, 'a) registry \<Rightarrow> (error + 'a result) \<times> ('k, 'a) registry" where
  "wrapped c r =
     (let r1 = r\<lparr>elems := snd (orig c (elems r))\<rparr>
      in case clearIndices r1 of
           (Inl e, r2) \<Rightarrow> (Inl e, r2)
         | (Inr u, r2) \<Rightarrow>
             (let (res, raw') = orig c (raw r2) in (Inr res, r2\<lparr>raw := raw'\<rparr>)))"

text \<open>
  The method call \<^verbatim>\<open>registry.method(args)\<close>: an own property of the instance hides
  the wrapper on the prototype, and calling \<^verbatim>\<open>undefined\<close> throws.
\<close>

definition invoke ::
  "'a call \<Rightarrow> ('k, 'a) registry \<Rightarrow> (error + 'a result) \<times> ('k, 'a) registry" where
  "invoke c r =
     (if method_of c \<in> set (hidden r) then (Inl (NotAFunction (method_of c)), r)
      else wrapped c r)"

text \<open>\<^verbatim>\<open>toJSON\<close> (lines 136 to 138).\<close>

definition toJSON :: "('k, 'a) registry \<Rightarrow> 'a list" where
  "toJSON r = raw r"

subsection \<open>Construction\<close>

text \<open>
  \<^verbatim>\<open>Object.defineProperty(self, to, {configurable: false, set: ..., get: ...})\<close>
  (line 74): a name that already holds such an accessor cannot be defined again, since the
  new getter and setter are other functions than the ones in place.
\<close>

definition defineProperty ::
  "string \<Rightarrow> ('k, 'a) view \<Rightarrow> ('k, 'a) registry \<Rightarrow> error + ('k, 'a) registry" where
  "defineProperty to v r =
     (if to \<in> set (map fst (props r)) then Inl (CannotRedefine to)
      else Inr (r\<lparr>props := props r @ [(to, v)]\<rparr>))"

text \<open>
  The \<^verbatim>\<open>props.map(...)\<close> of lines 68 to 92. The path getter
  \<^verbatim>\<open>pathGetter\<close> and the inflector are not among the sources and are parameters.
\<close>

fun mapProps ::
  "(string \<Rightarrow> 'a \<Rightarrow> 'k) \<Rightarrow> (string \<Rightarrow> string) \<Rightarrow> view_op \<Rightarrow> string list \<Rightarrow>
   ('k, 'a) registry \<Rightarrow> error + (string list \<times> ('k, 'a) registry)" where
  "mapProps pathGetter inflect f [] r = Inr ([], r)"
| "mapProps pathGetter inflect f (prop # ps) r =
     (let from = pathGetter prop;
          to = inflect prop
      in case defineProperty to \<lparr>v_from = from, v_op = f, v_cache = JsUndefined\<rparr> r of
           Inl e \<Rightarrow> Inl e
         | Inr r' \<Rightarrow>
             (case mapProps pathGetter inflect f ps r' of
                Inl e \<Rightarrow> Inl e
              | Inr (names, r'') \<Rightarrow> Inr (to # names, r'')))"

text \<open>
  \<^verbatim>\<open>_setupIndices\<close> (lines 63 to 94). Without properties it returns
  \<^verbatim>\<open>undefined\<close>, here \<open>None\<close>.
\<close>

definition setupIndices ::
  "(string \<Rightarrow> 'a \<Rightarrow> 'k) \<Rightarrow> string list option \<Rightarrow> (string \<Rightarrow> string) \<Rightarrow> view_op \<Rightarrow>
   ('k, 'a) registry \<Rightarrow> error + (string list option \<times> ('k, 'a) registry)" where
  "setupIndices pathGetter ps inflect f r =
     (case ps of
        None \<Rightarrow> Inr (None, r)
      | Some ps' \<Rightarrow>
          if length ps' = 0 then Inr (None, r)
          else
            (case mapProps pathGetter inflect f ps' r of
               Inl e \<Rightarrow> Inl e
             | Inr (names, r') \<Rightarrow> Inr (Some names, r')))"

text \<open>
  Modelled from the spec: \<^verbatim>\<open>_.union\<close> belongs to the lodash library, which is
  not among the sources. The names of the three declarations are collected in the order
  group, index, order (section 4.2), and invariant I4 has them unique: arguments that are no
  array are left out, and of equal names the first is kept.
\<close>

definition unionNames :: "string list option list \<Rightarrow> string list" where
  "unionNames as =
     rev (remdups (rev (concat (map (\<lambda>a. case a of None \<Rightarrow> [] | Some ns \<Rightarrow> ns) as))))"

text \<open>The configuration object; an absent field is \<open>None\<close>, or \<open>False\<close> for the flag.\<close>

record 'a config =
  index :: "string list option"
  group :: "string list option"
  order :: "string list option"
  initialSet :: "'a list option"
  immutable :: bool

definition emptyRegistry :: "('k, 'a) registry" where
  "emptyRegistry =
     \<lparr>elems = [], raw = [], props = [], indexNames = [], hidden = [], allocs = 0,
      foreign = [], leaked = False\<rparr>"

text \<open>
  The constructor (lines 27 to 48). The two inflectors \<^verbatim>\<open>inflectIndex\<close> and
  \<^verbatim>\<open>inflectOrder\<close> of lines 8 and 9 and the path getter are parameters. The arguments
  of \<^verbatim>\<open>_.union\<close> are evaluated from left to right, and an exception leaves the
  constructor at once.
\<close>

definition Registry ::
  "(string \<Rightarrow> string) \<Rightarrow> (string \<Rightarrow> string) \<Rightarrow> (string \<Rightarrow> 'a \<Rightarrow> 'k) \<Rightarrow> 'a config \<Rightarrow>
   error + ('k, 'a) registry" where
  "Registry inflectIndex inflectOrder pathGetter config =
     (case setupIndices pathGetter (group config) inflectIndex GroupBy emptyRegistry of
        Inl e \<Rightarrow> Inl e
      | Inr (g, r1) \<Rightarrow>
     (case setupIndices pathGetter (index config) inflectIndex IndexBy r1 of
        Inl e \<Rightarrow> Inl e
      | Inr (i, r2) \<Rightarrow>
     (case setupIndices pathGetter (order config) inflectOrder SortBy r2 of
        Inl e \<Rightarrow> Inl e
      | Inr (ord, r3) \<Rightarrow>
     (let r4 = r3\<lparr>indexNames := unionNames [g, i, ord]\<rparr> in
      case (case initialSet config of
              None \<Rightarrow> (Inr RUndefined, r4)
            | Some xs \<Rightarrow> invoke (CPush xs) r4) of
        (Inl e, r5) \<Rightarrow> Inl e
      | (Inr res, r5) \<Rightarrow>
          Inr (if immutable config then r5\<lparr>hidden := [Push, Splice]\<rparr> else r5)))))"

subsection \<open>Sequences of uses\<close>

text \<open>
  What a caller can do with a registry: call a method, read a property, assign to a property.
  A use that throws leaves the state as it is at the throw.
\<close>

datatype ('a, 'v) event = Call "'a call" | Read string | Assign string "'v jsval"

fun step :: "('a, 'v) event \<Rightarrow> ('k::linorder, 'a) registry \<Rightarrow> ('k, 'a) registry" where
  "step (Call c) r = snd (invoke c r)"
| "step (Read name) r = snd (read name r)"
| "step (Assign name val) r = snd (assign name val r)"

definition run :: "('a, 'v) event list \<Rightarrow> ('k::linorder, 'a) registry \<Rightarrow> ('k, 'a) registry" where
  "run evs r = fold step evs r"

subsection \<open>What a caller can do beside\<close>




text \<open>A registry on which no caller has defined a setter and no setter has received anything.\<close>

definition untampered :: "('k, 'a) registry \<Rightarrow> bool" where
  "untampered r \<longleftrightarrow> foreign r = [] \<and> \<not> leaked r"

subsection \<open>Declarations and the invariant\<close>

text \<open>An absent list of the configuration counts as the empty list.\<close>

fun the_list :: "'b list option \<Rightarrow> 'b list" where
  "the_list None = []" | "the_list (Some xs) = xs"

text \<open>
  The views that a configuration declares, in the order of their definition: the public name,
  the path getter and the builder of each.
\<close>

definition declared ::
  "(string \<Rightarrow> string) \<Rightarrow> (string \<Rightarrow> string) \<Rightarrow> (string \<Rightarrow> 'a \<Rightarrow> 'k) \<Rightarrow> 'a config \<Rightarrow>
   (string \<times> ('a \<Rightarrow> 'k) \<times> view_op) list" where
  "declared inflectIndex inflectOrder pathGetter config =
     map (\<lambda>p. (inflectIndex p, pathGetter p, GroupBy)) (the_list (group config)) @
     map (\<lambda>p. (inflectIndex p, pathGetter p, IndexBy)) (the_list (index config)) @
     map (\<lambda>p. (inflectOrder p, pathGetter p, SortBy)) (the_list (order config))"

text \<open>The same for the accessors that a registry holds.\<close>

definition decls :: "('k, 'a) registry \<Rightarrow> (string \<times> ('a \<Rightarrow> 'k) \<times> view_op) list" where
  "decls r = map (\<lambda>(n, v). (n, v_from v, v_op v)) (props r)"

text \<open>
  The invariant of a registry: the names of the accessors are distinct and are the content of
  \<^verbatim>\<open>_indexNames\<close>, the public sequence equals \<^verbatim>\<open>raw\<close>, and a cache that
  holds an object holds what the builder gives on the present \<^verbatim>\<open>raw\<close>.
\<close>

definition consistent :: "('k::linorder, 'a) registry \<Rightarrow> bool" where
  "consistent r \<longleftrightarrow>
     distinct (map fst (props r)) \<and> indexNames r = map fst (props r) \<and> elems r = raw r \<and>
     (\<forall>n v ref val. map_of (props r) n = Some v \<longrightarrow> v_cache v = JsObject ref val \<longrightarrow>
        val = apply_op (v_op v) (raw r) (v_from v))"

text \<open>The accessors that \<^verbatim>\<open>_setupIndices\<close> installs for a list of properties.\<close>

definition mkViews ::
  "(string \<Rightarrow> 'a \<Rightarrow> 'k) \<Rightarrow> (string \<Rightarrow> string) \<Rightarrow> view_op \<Rightarrow> string list \<Rightarrow> (string \<times> ('k, 'a) view) list" where
  "mkViews pathGetter inflect f ps =
     map (\<lambda>p. (inflect p, \<lparr>v_from = pathGetter p, v_op = f, v_cache = JsUndefined\<rparr>)) ps"

text \<open>The decoration of \<open>sortBy\<close> with the positions counted from \<open>n\<close>.\<close>

definition decorateFrom :: "nat \<Rightarrow> ('a \<Rightarrow> 'k) \<Rightarrow> 'a list \<Rightarrow> (('k \<times> nat) \<times> 'a) list" where
  "decorateFrom n f xs = map (\<lambda>(i, x). ((f x, i), x)) (enumerate n xs)"

subsection \<open>Example registries\<close>

text \<open>An inflector in the place of \<^verbatim>\<open>inflector('by')\<close>.\<close>

definition exInflectIndex :: "string \<Rightarrow> string" where
  "exInflectIndex p = ''by_'' @ p"

text \<open>An inflector in the place of \<^verbatim>\<open>inflector('in', 'Order')\<close>.\<close>

definition exInflectOrder :: "string \<Rightarrow> string" where
  "exInflectOrder p = ''in_'' @ p @ ''_Order''"

text \<open>Records are pairs of an \<^verbatim>\<open>id\<close> and a number \<^verbatim>\<open>n\<close>; the path getter reads one of the two.\<close>

definition exPathGetter :: "string \<Rightarrow> nat \<times> nat \<Rightarrow> nat" where
  "exPathGetter p = (if p = ''id'' then fst else snd)"

text \<open>A configuration with one view of each kind and two initial records.\<close>

definition exConfig :: "(nat \<times> nat) config" where
  "exConfig = \<lparr>index = Some [''id''], group = Some [''n''], order = Some [''n''],
     initialSet = Some [(1, 3), (2, 1)], immutable = False\<rparr>"

text \<open>The registry that the constructor builds from it: the seeding \<^verbatim>\<open>push\<close> has reset the caches.\<close>

definition exRegistry :: "(nat, nat \<times> nat) registry" where
  "exRegistry =
     \<lparr>elems = [(1, 3), (2, 1)], raw = [(1, 3), (2, 1)],
      props = [(''by_n'', \<lparr>v_from = exPathGetter ''n'', v_op = GroupBy, v_cache = JsFalse\<rparr>),
               (''by_id'', \<lparr>v_from = exPathGetter ''id'', v_op = IndexBy, v_cache = JsFalse\<rparr>),
               (''in_n_Order'', \<lparr>v_from = exPathGetter ''n'', v_op = SortBy, v_cache = JsFalse\<rparr>)],
      indexNames = [''by_n'', ''by_id'', ''in_n_Order''], hidden = [], allocs = 0,
      foreign = [], leaked = False\<rparr>"

text \<open>Scenario 5 of the specification: a group and an index on the same path.\<close>

definition dupConfig :: "(nat \<times> nat) config" where
  "dupConfig = \<lparr>index = Some [''kind''], group = Some [''kind''], order = None,
     initialSet = None, immutable = False\<rparr>"

text \<open>An immutable registry of two records without views.\<close>

definition immConfig :: "(nat \<times> nat) config" where
  "immConfig = \<lparr>index = None, group = None, order = None,
     initialSet = Some [(1, 3), (2, 1)], immutable = True\<rparr>"

text \<open>The registry that the constructor builds from it.\<close>

definition immRegistry :: "(nat, nat \<times> nat) registry" where
  "immRegistry =
     \<lparr>elems = [(1, 3), (2, 1)], raw = [(1, 3), (2, 1)], props = [], indexNames = [],
      hidden = [Push, Splice], allocs = 0, foreign = [], leaked = False\<rparr>"

text \<open>A read of the index view, then a \<^verbatim>\<open>push\<close> of a record whose \<^verbatim>\<open>id\<close> is already there (scenario 2 of the specification).\<close>

definition exEvents :: "(nat \<times> nat, unit) event list" where
  "exEvents = [Read ''by_id'', Call (CPush [(1, 7)])]"

text \<open>The registry after these two uses.\<close>

definition exLater :: "(nat, nat \<times> nat) registry" where
  "exLater =
     \<lparr>elems = [(1, 3), (2, 1), (1, 7)], raw = [(1, 3), (2, 1), (1, 7)],
      props = [(''by_n'', \<lparr>v_from = exPathGetter ''n'', v_op = GroupBy, v_cache = JsFalse\<rparr>),
               (''by_id'', \<lparr>v_from = exPathGetter ''id'', v_op = IndexBy, v_cache = JsFalse\<rparr>),
               (''in_n_Order'', \<lparr>v_from = exPathGetter ''n'', v_op = SortBy, v_cache = JsFalse\<rparr>)],
      indexNames = [''by_n'', ''by_id'', ''in_n_Order''], hidden = [], allocs = 1,
      foreign = [], leaked = False\<rparr>"



section \<open>Properties\<close>

subsection \<open>The builders\<close>

lemma indexBy_fold:
  "fold (\<lambda>x m. m(f x \<mapsto> x)) xs m0 k =
     (if filter (\<lambda>x. f x = k) xs = [] then m0 k else Some (last (filter (\<lambda>x. f x = k) xs)))"
  by (induction xs arbitrary: m0) auto

lemma indexBy_last:
  "indexBy xs f k =
     (if filter (\<lambda>x. f x = k) xs = [] then None else Some (last (filter (\<lambda>x. f x = k) xs)))"
  by (simp add: indexBy_def indexBy_fold)

lemma decorateFrom_Cons: "decorateFrom n f (x # xs) = ((f x, n), x) # decorateFrom (Suc n) f xs"
  by (simp add: decorateFrom_def)

lemma decorateFrom_Nil: "decorateFrom n f [] = []"
  by (simp add: decorateFrom_def)

lemma decorateFrom_snd: "map snd (decorateFrom n f xs) = xs"
  by (induction xs arbitrary: n) (simp_all add: decorateFrom_Cons decorateFrom_Nil)

lemma decorateFrom_key: "d \<in> set (decorateFrom n f xs) \<Longrightarrow> fst (fst d) = f (snd d) \<and> n \<le> snd (fst d)"
  by (induction xs arbitrary: n) (auto simp: decorateFrom_Cons decorateFrom_Nil dest: Suc_leD)

lemma decorateFrom_sorted_group:
  "sorted (map fst (filter (\<lambda>d. fst (fst d) = k) (decorateFrom n f xs)))"
proof (induction xs arbitrary: n)
  case Nil
  show ?case by (simp add: decorateFrom_Nil)
next
  case (Cons x xs)
  have "(k, n) \<le> fst d" if "d \<in> set (decorateFrom (Suc n) f xs)" "fst (fst d) = k" for d
    using decorateFrom_key[OF that(1)] that(2) by (cases d) (auto simp: less_eq_prod_def)
  then show ?case
    using Cons.IH[of "Suc n"] by (auto simp: decorateFrom_Cons)
qed

lemma sorted_lex_fst: "sorted (ps :: ('k::linorder \<times> nat) list) \<Longrightarrow> sorted (map fst ps)"
  by (induction ps) (auto simp: less_eq_prod_def)

lemma decorate_From: "decorate f xs = decorateFrom 0 f xs"
  by (simp add: decorate_def decorateFrom_def)

lemma sortBy_mset: "mset (sortBy xs f) = mset xs"
proof -
  have "mset (map snd (sort_key fst (decorate f xs))) = mset (map snd (decorate f xs))"
    by (simp only: mset_map mset_sort)
  then show ?thesis
    by (simp add: sortBy_def decorate_From decorateFrom_snd)
qed

lemma sortBy_sorted: "sorted (map f (sortBy xs f))"
proof -
  let ?S = "sort_key fst (decorate f xs)"
  have eq: "map f (map snd ?S) = map fst (map fst ?S)"
    using decorateFrom_key[of _ 0 f xs] by (simp add: decorate_From)
  have "sorted (map fst (map fst ?S))"
    by (rule sorted_lex_fst) (rule sorted_sort_key)
  then show ?thesis
    unfolding sortBy_def by (simp only: eq)
qed

lemma sortBy_stable: "filter (\<lambda>x. f x = k) (sortBy xs f) = filter (\<lambda>x. f x = k) xs"
proof -
  let ?D = "decorate f xs"
  let ?Q = "\<lambda>d :: ('b \<times> nat) \<times> 'a. fst (fst d) = k"
  have key: "\<And>d. d \<in> set ?D \<Longrightarrow> (f (snd d) = k) = ?Q d"
    using decorateFrom_key[of _ 0 f xs] by (simp add: decorate_From)
  have "filter (\<lambda>x. f x = k) (sortBy xs f) = map snd (filter (\<lambda>d. f (snd d) = k) (sort_key fst ?D))"
    by (simp add: sortBy_def filter_map comp_def)
  also have "filter (\<lambda>d. f (snd d) = k) (sort_key fst ?D) = filter ?Q (sort_key fst ?D)"
    by (rule filter_cong) (simp_all add: key)
  also have "filter ?Q (sort_key fst ?D) = sort_key fst (filter ?Q ?D)"
    by (rule filter_sort)
  also have "\<dots> = filter ?Q ?D"
    by (rule sort_key_id_if_sorted) (simp add: decorate_From decorateFrom_sorted_group)
  also have "filter ?Q ?D = filter (\<lambda>d. f (snd d) = k) ?D"
    by (rule filter_cong) (simp_all add: key)
  also have "map snd (filter (\<lambda>d. f (snd d) = k) ?D) = filter (\<lambda>x. f x = k) (map snd ?D)"
    by (simp add: filter_map comp_def)
  finally show ?thesis
    by (simp add: decorate_From decorateFrom_snd)
qed

subsection \<open>Assignment, invalidation and the wrapped methods\<close>

lemma update_same_shape:
  "map_of al n = Some v \<Longrightarrow> v_from v' = v_from v \<Longrightarrow> v_op v' = v_op v \<Longrightarrow>
   map (\<lambda>(n, v). (n, v_from v, v_op v)) (AList.update n v' al) = map (\<lambda>(n, v). (n, v_from v, v_op v)) al"
  by (induction al) (auto split: if_splits)

lemma update_same_keys:
  "map_of al n = Some v \<Longrightarrow> map fst (AList.update n v' al) = map fst al"
  by (induction al) (auto split: if_splits)

lemma assign_frame:
  "elems (snd (assign n val r)) = elems r"
  "raw (snd (assign n val r)) = raw r"
  "indexNames (snd (assign n val r)) = indexNames r"
  "hidden (snd (assign n val r)) = hidden r"
  "allocs (snd (assign n val r)) = allocs r"
  "map fst (props (snd (assign n val r))) = map fst (props r)"
  "decls (snd (assign n val r)) = decls r"
  by (auto simp: assign_def setter_def decls_def update_same_keys update_same_shape split: option.splits)

lemma assign_clear_ok: "fst (assign n CLEAR_CACHE r) = Inr ()"
  by (auto simp: assign_def setter_def split: option.splits)

lemma assign_clear_props:
  "map_of (props (snd (assign n CLEAR_CACHE r))) m =
     (if m = n then map_option (\<lambda>v. v\<lparr>v_cache := JsFalse\<rparr>) (map_of (props r) n) else map_of (props r) m)"
  by (auto simp: assign_def setter_def update_conv' split: option.splits)


lemma clearEach_ok: "fst (clearEach ns r) = Inr ()"
  by (induction ns arbitrary: r) (auto split: prod.splits sum.splits dest: arg_cong[where f=fst] simp: assign_clear_ok)



lemma clearEach_Cons:
  "clearEach (n # ns) r = clearEach ns (snd (assign n (CLEAR_CACHE :: unit jsval) r))"
proof -
  have "fst (assign n (CLEAR_CACHE :: unit jsval) r) = Inr ()"
    by (rule assign_clear_ok)
  then show ?thesis
    by (cases "assign n (CLEAR_CACHE :: unit jsval) r") auto
qed

lemma clearEach_elems: "elems (snd (clearEach ns r)) = elems r"
  by (induction ns arbitrary: r) (simp_all add: clearEach_Cons assign_frame del: clearEach.simps(2))

lemma clearEach_raw: "raw (snd (clearEach ns r)) = raw r"
  by (induction ns arbitrary: r) (simp_all add: clearEach_Cons assign_frame del: clearEach.simps(2))

lemma clearEach_indexNames: "indexNames (snd (clearEach ns r)) = indexNames r"
  by (induction ns arbitrary: r) (simp_all add: clearEach_Cons assign_frame del: clearEach.simps(2))

lemma clearEach_hidden: "hidden (snd (clearEach ns r)) = hidden r"
  by (induction ns arbitrary: r) (simp_all add: clearEach_Cons assign_frame del: clearEach.simps(2))

lemma clearEach_allocs: "allocs (snd (clearEach ns r)) = allocs r"
  by (induction ns arbitrary: r) (simp_all add: clearEach_Cons assign_frame del: clearEach.simps(2))

lemma clearEach_keys: "map fst (props (snd (clearEach ns r))) = map fst (props r)"
  by (induction ns arbitrary: r) (simp_all add: clearEach_Cons assign_frame del: clearEach.simps(2))

lemma clearEach_decls: "decls (snd (clearEach ns r)) = decls r"
  by (induction ns arbitrary: r) (simp_all add: clearEach_Cons assign_frame del: clearEach.simps(2))

lemmas clearEach_frame = clearEach_elems clearEach_raw clearEach_indexNames clearEach_hidden
  clearEach_allocs clearEach_keys clearEach_decls

text \<open>After the loop, a view is as before, with its cache reset when its name was in the list.\<close>

lemma clearEach_props:
  "map_of (props (snd (clearEach ns r))) m =
     (if m \<in> set ns then map_option (\<lambda>v. v\<lparr>v_cache := JsFalse\<rparr>) (map_of (props r) m)
      else map_of (props r) m)"
proof (induction ns arbitrary: r)
  case Nil
  show ?case by simp
next
  case (Cons n ns)
  show ?case
    unfolding clearEach_Cons Cons.IH assign_clear_props
    by (cases "map_of (props r) m") auto
qed

lemma clearIndices_ok: "fst (clearIndices r) = Inr ()"
  by (simp add: clearIndices_def clearEach_ok)

lemma wrapped_eq:
  "wrapped c r =
     (Inr (fst (orig c (raw r))),
      (snd (clearIndices (r\<lparr>elems := snd (orig c (elems r))\<rparr>)))\<lparr>raw := snd (orig c (raw r))\<rparr>)"
proof -
  let ?r1 = "r\<lparr>elems := snd (orig c (elems r))\<rparr>"
  have ok: "clearIndices ?r1 = (Inr (), snd (clearIndices ?r1))"
    using clearIndices_ok[of ?r1] by (cases "clearIndices ?r1") auto
  have raw1: "raw (snd (clearIndices ?r1)) = raw r"
    by (simp add: clearIndices_def clearEach_raw)
  show ?thesis
    unfolding wrapped_def Let_def
    by (subst ok) (simp add: raw1 split: prod.splits)
qed


lemma decls_other_fields:
  "decls (r\<lparr>raw := xs\<rparr>) = decls r"
  "decls (r\<lparr>elems := xs\<rparr>) = decls r"
  "decls (r\<lparr>indexNames := ns\<rparr>) = decls r"
  "decls (r\<lparr>hidden := ms\<rparr>) = decls r"
  by (simp_all add: decls_def)

lemma wrapped_frame:
  "elems (snd (wrapped c r)) = snd (orig c (elems r))"
  "raw (snd (wrapped c r)) = snd (orig c (raw r))"
  "indexNames (snd (wrapped c r)) = indexNames r"
  "hidden (snd (wrapped c r)) = hidden r"
  "allocs (snd (wrapped c r)) = allocs r"
  "map fst (props (snd (wrapped c r))) = map fst (props r)"
  "decls (snd (wrapped c r)) = decls r"
  by (simp_all add: wrapped_eq clearIndices_def clearEach_frame decls_other_fields)

lemma wrapped_props:
  "map_of (props (snd (wrapped c r))) m =
     (if m \<in> set (indexNames r) then map_option (\<lambda>v. v\<lparr>v_cache := JsFalse\<rparr>) (map_of (props r) m)
      else map_of (props r) m)"
  by (simp add: wrapped_eq clearIndices_def clearEach_props)

lemma read_frame:
  "elems (snd (read n r)) = elems r"
  "raw (snd (read n r)) = raw r"
  "indexNames (snd (read n r)) = indexNames r"
  "hidden (snd (read n r)) = hidden r"
  "map fst (props (snd (read n r))) = map fst (props r)"
  "decls (snd (read n r)) = decls r"
  by (auto simp: read_def Let_def decls_def update_same_keys update_same_shape split: option.splits)

lemma read_caller_parts:
  "foreign (snd (read n r)) = foreign r"
  "leaked (snd (read n r)) = leaked r"
  by (auto simp: read_def Let_def split: option.splits)

lemma read_props_other:
  "m \<noteq> n \<Longrightarrow> map_of (props (snd (read n r))) m = map_of (props r) m"
  by (auto simp: read_def Let_def update_conv' split: option.splits)

lemma read_absent:
  "map_of (props r) n = Some v \<Longrightarrow> \<not> truthy (v_cache v) \<Longrightarrow>
   fst (read n r) = JsObject (allocs r) (apply_op (v_op v) (raw r) (v_from v))"
  by (simp add: read_def Let_def)

lemma read_props_same:
  "map_of (props r) n = Some v \<Longrightarrow>
   map_of (props (snd (read n r))) n = Some (v\<lparr>v_cache := fst (read n r)\<rparr>)"
  by (auto simp: read_def Let_def update_conv')

lemma consistent_read: "consistent r \<Longrightarrow> consistent (snd (read n r))"
  unfolding consistent_def
proof (intro conjI allI impI)
  assume c: "distinct (map fst (props r)) \<and> indexNames r = map fst (props r) \<and> elems r = raw r \<and>
     (\<forall>n v ref val. map_of (props r) n = Some v \<longrightarrow> v_cache v = JsObject ref val \<longrightarrow>
        val = apply_op (v_op v) (raw r) (v_from v))"
  show "distinct (map fst (props (snd (read n r))))" using c by (simp add: read_frame)
  show "indexNames (snd (read n r)) = map fst (props (snd (read n r)))" using c by (simp add: read_frame)
  show "elems (snd (read n r)) = raw (snd (read n r))" using c by (simp add: read_frame)
  fix m v ref val
  assume m: "map_of (props (snd (read n r))) m = Some v" and o: "v_cache v = JsObject ref val"
  show "val = apply_op (v_op v) (raw (snd (read n r))) (v_from v)"
  proof (cases "m = n")
    case False
    then show ?thesis using c m o by (simp add: read_props_other read_frame)
  next
    case True
    then obtain w where w: "map_of (props r) n = Some w"
      using m by (cases "map_of (props r) n") (auto simp: read_def)
    have v: "v = w\<lparr>v_cache := fst (read n r)\<rparr>"
      using read_props_same[OF w] m True by simp
    show ?thesis
    proof (cases "truthy (v_cache w)")
      case True
      then have "fst (read n r) = v_cache w" using w by (simp add: read_def)
      then show ?thesis using c w o v by (auto simp: read_frame)
    next
      case False
      then show ?thesis using read_absent[OF w False] o v by (simp add: read_frame)
    qed
  qed
qed

lemma assign_rejected: "val \<noteq> CLEAR_CACHE \<Longrightarrow> snd (assign n val r) = r"
  by (simp add: assign_def setter_def split: option.splits)

lemma consistent_assign:
  assumes "consistent r"
  shows "consistent (snd (assign n val r))"
proof (cases "val = CLEAR_CACHE")
  case False
  then show ?thesis using assms by (simp add: assign_rejected)
next
  case True
  have same: "\<And>m v ref x. map_of (props (snd (assign n CLEAR_CACHE r))) m = Some v \<Longrightarrow>
          v_cache v = JsObject ref x \<Longrightarrow> map_of (props r) m = Some v"
    by (auto simp: assign_clear_props split: if_splits)
  show ?thesis
    unfolding consistent_def True
  proof (intro conjI allI impI)
    show "distinct (map fst (props (snd (assign n CLEAR_CACHE r))))"
      using assms by (simp add: assign_frame consistent_def)
    show "indexNames (snd (assign n CLEAR_CACHE r)) = map fst (props (snd (assign n CLEAR_CACHE r)))"
      using assms by (simp add: assign_frame consistent_def)
    show "elems (snd (assign n CLEAR_CACHE r)) = raw (snd (assign n CLEAR_CACHE r))"
      using assms by (simp add: assign_frame consistent_def)
    fix m v ref x
    assume "map_of (props (snd (assign n CLEAR_CACHE r))) m = Some v" "v_cache v = JsObject ref x"
    then have "map_of (props r) m = Some v" "v_cache v = JsObject ref x"
      using same by blast+
    then show "x = apply_op (v_op v) (raw (snd (assign n CLEAR_CACHE r))) (v_from v)"
      using assms unfolding consistent_def assign_frame by blast
  qed
qed

lemma wrapped_cache_absent:
  assumes "indexNames r = map fst (props r)"
    and "map_of (props (snd (wrapped c r))) m = Some v"
  shows "v_cache v = JsFalse"
proof -
  have "m \<in> set (indexNames r)"
  proof (rule ccontr)
    assume "m \<notin> set (indexNames r)"
    then have "map_of (props r) m = Some v"
      using assms(2) by (simp add: wrapped_props)
    then have "m \<in> fst ` set (props r)"
      by (metis map_of_eq_None_iff option.distinct(1))
    then show False
      using \<open>m \<notin> set (indexNames r)\<close> assms(1) by simp
  qed
  then show ?thesis
    using assms(2) by (auto simp: wrapped_props)
qed

lemma consistent_wrapped:
  assumes "consistent r"
  shows "consistent (snd (wrapped c r))"
proof -
  have names: "indexNames r = map fst (props r)"
    using assms by (simp add: consistent_def)
  have "\<And>m v ref val. map_of (props (snd (wrapped c r))) m = Some v \<Longrightarrow>
          v_cache v \<noteq> JsObject ref val"
    using wrapped_cache_absent[OF names] by fastforce
  then show ?thesis
    using assms unfolding consistent_def by (simp add: wrapped_frame)
qed

lemma consistent_invoke: "consistent r \<Longrightarrow> consistent (snd (invoke c r))"
  by (simp add: invoke_def consistent_wrapped)

lemma consistent_step: "consistent r \<Longrightarrow> consistent (step e r)"
  by (cases e) (simp_all add: consistent_invoke consistent_read consistent_assign)

lemma consistent_run: "consistent r \<Longrightarrow> consistent (run evs r)"
  unfolding run_def by (induction evs arbitrary: r) (simp_all add: consistent_step)

lemma untampered_assign: "untampered r \<Longrightarrow> untampered (snd (assign n val r))"
  by (auto simp: untampered_def assign_def setter_def split: option.splits)

lemma untampered_clearEach: "untampered r \<Longrightarrow> untampered (snd (clearEach ns r))"
  by (induction ns arbitrary: r)
     (simp_all add: clearEach_Cons untampered_assign del: clearEach.simps(2))

lemma untampered_other_fields:
  "untampered (r\<lparr>raw := xs\<rparr>) = untampered r"
  "untampered (r\<lparr>elems := xs\<rparr>) = untampered r"
  "untampered (r\<lparr>indexNames := ns\<rparr>) = untampered r"
  "untampered (r\<lparr>hidden := ms\<rparr>) = untampered r"
  "untampered (r\<lparr>props := ps\<rparr>) = untampered r"
  by (simp_all add: untampered_def)

lemma untampered_wrapped: "untampered r \<Longrightarrow> untampered (snd (wrapped c r))"
  by (simp add: wrapped_eq clearIndices_def untampered_other_fields untampered_clearEach)

lemma untampered_read: "untampered r \<Longrightarrow> untampered (snd (read n r))"
  by (auto simp: untampered_def read_def Let_def split: option.splits)

lemma untampered_step: "untampered r \<Longrightarrow> untampered (step e r)"
  by (cases e) (simp_all add: invoke_def untampered_wrapped untampered_read untampered_assign)

lemma untampered_run: "untampered r \<Longrightarrow> untampered (run evs r)"
  unfolding run_def by (induction evs arbitrary: r) (simp_all add: untampered_step)

lemma step_decls: "decls (step e r) = decls r"
  by (cases e) (simp_all add: invoke_def wrapped_frame read_frame assign_frame)

lemma run_decls: "decls (run evs r) = decls r"
  unfolding run_def by (induction evs arbitrary: r) (simp_all add: step_decls)

lemma step_hidden: "hidden (step e r) = hidden r"
  by (cases e) (simp_all add: invoke_def wrapped_frame read_frame assign_frame)

lemma run_hidden: "hidden (run evs r) = hidden r"
  unfolding run_def by (induction evs arbitrary: r) (simp_all add: step_hidden)


lemma mkViews_keys: "map fst (mkViews pg inflect f ps) = map inflect ps"
  by (simp add: mkViews_def comp_def)

lemma mapProps_ok:
  "distinct (map fst (props r) @ map inflect ps) \<Longrightarrow>
   mapProps pg inflect f ps r = Inr (map inflect ps, r\<lparr>props := props r @ mkViews pg inflect f ps\<rparr>)"
proof (induction ps arbitrary: r)
  case Nil
  show ?case by (simp add: mkViews_def)
next
  case (Cons p ps)
  let ?v = "\<lparr>v_from = pg p, v_op = f, v_cache = JsUndefined\<rparr>"
  let ?r' = "r\<lparr>props := props r @ [(inflect p, ?v)]\<rparr>"
  have fresh: "inflect p \<notin> set (map fst (props r))"
    using Cons.prems by auto
  have d: "defineProperty (inflect p) ?v r = Inr ?r'"
    using fresh by (simp add: defineProperty_def)
  have "distinct (map fst (props ?r') @ map inflect ps)"
    using Cons.prems by auto
  from Cons.IH[OF this] show ?case
    by (simp add: d Let_def mkViews_def)
qed

lemma mapProps_fail:
  "\<not> distinct (map fst (props r) @ map inflect ps) \<Longrightarrow> distinct (map fst (props r)) \<Longrightarrow>
   \<exists>n. mapProps pg inflect f ps r = Inl (CannotRedefine n)"
proof (induction ps arbitrary: r)
  case Nil
  then show ?case by simp
next
  case (Cons p ps)
  let ?v = "\<lparr>v_from = pg p, v_op = f, v_cache = JsUndefined\<rparr>"
  let ?r' = "r\<lparr>props := props r @ [(inflect p, ?v)]\<rparr>"
  show ?case
  proof (cases "inflect p \<in> set (map fst (props r))")
    case True
    then show ?thesis by (simp add: defineProperty_def Let_def)
  next
    case False
    then have d: "defineProperty (inflect p) ?v r = Inr ?r'"
      by (simp add: defineProperty_def)
    have 1: "\<not> distinct (map fst (props ?r') @ map inflect ps)"
      using Cons.prems by auto
    have 2: "distinct (map fst (props ?r'))"
      using Cons.prems(2) False by auto
    from Cons.IH[OF 1 2] obtain n where
      "mapProps pg inflect f ps ?r' = Inl (CannotRedefine n)" ..
    then show ?thesis by (simp add: d Let_def)
  qed
qed

lemma setupIndices_ok:
  assumes "distinct (map fst (props r) @ map inflect (the_list ps))"
  shows "\<exists>names. setupIndices pg ps inflect f r =
           Inr (names, r\<lparr>props := props r @ mkViews pg inflect f (the_list ps)\<rparr>) \<and>
           the_list names = map inflect (the_list ps)"
proof (cases ps)
  case None
  then show ?thesis by (simp add: setupIndices_def mkViews_def)
next
  case (Some ps')
  show ?thesis
  proof (cases "ps' = []")
    case True
    then show ?thesis using Some by (simp add: setupIndices_def mkViews_def)
  next
    case False
    then show ?thesis
      using Some mapProps_ok[of r inflect ps' pg f] assms by (simp add: setupIndices_def)
  qed
qed

lemma setupIndices_fail:
  assumes "\<not> distinct (map fst (props r) @ map inflect (the_list ps))"
    and "distinct (map fst (props r))"
  shows "\<exists>n. setupIndices pg ps inflect f r = Inl (CannotRedefine n)"
proof (cases ps)
  case None
  then show ?thesis using assms by simp
next
  case (Some ps')
  then have ne: "ps' \<noteq> []" using assms by auto
  from mapProps_fail[of r inflect ps' pg f] assms Some obtain n where
    "mapProps pg inflect f ps' r = Inl (CannotRedefine n)" by auto
  then show ?thesis using Some ne by (simp add: setupIndices_def)
qed

lemma first_occurrences_distinct: "distinct xs \<Longrightarrow> rev (remdups (rev xs)) = xs"
  by (simp add: distinct_remdups_id)

lemma unionNames_distinct:
  "distinct (the_list a @ the_list b @ the_list c) \<Longrightarrow>
   unionNames [a, b, c] = the_list a @ the_list b @ the_list c"
proof -
  assume d: "distinct (the_list a @ the_list b @ the_list c)"
  have "concat (map (\<lambda>a. case a of None \<Rightarrow> [] | Some ns \<Rightarrow> ns) [a, b, c]) =
        the_list a @ the_list b @ the_list c"
    by (cases a; cases b; cases c) simp_all
  then show ?thesis
    using first_occurrences_distinct[OF d] unfolding unionNames_def by simp
qed


lemma declared_keys:
  "map fst (declared iI iO pg cfg) =
     map iI (the_list (group cfg)) @ map iI (the_list (index cfg)) @ map iO (the_list (order cfg))"
  by (simp add: declared_def comp_def)

lemma decls_mkViews:
  "map (\<lambda>(n, v). (n, v_from v, v_op v)) (mkViews pg inflect f ps) = map (\<lambda>p. (inflect p, pg p, f)) ps"
  by (simp add: mkViews_def comp_def)

lemma mkViews_cache: "(n, v) \<in> set (mkViews pg inflect f ps) \<Longrightarrow> v_cache v = JsUndefined"
  by (auto simp: mkViews_def)

lemma consistent_hidden: "consistent (r\<lparr>hidden := ms\<rparr>) = consistent r"
  by (simp add: consistent_def)

lemma invoke_push_unhidden:
  "hidden r = [] \<Longrightarrow> invoke c r = (Inr (fst (orig c (raw r))), snd (wrapped c r))"
  by (simp add: invoke_def wrapped_eq)

lemma Registry_ok:
  assumes d: "distinct (map fst (declared iI iO pg cfg))"
  shows "\<exists>r. Registry iI iO pg cfg = Inr r \<and> consistent r \<and> decls r = declared iI iO pg cfg \<and>
           hidden r = (if immutable cfg then [Push, Splice] else []) \<and>
           raw r = the_list (initialSet cfg) \<and> allocs r = 0 \<and> untampered r"
proof -
  let ?G = "the_list (group cfg)" and ?I = "the_list (index cfg)" and ?O = "the_list (order cfg)"
  let ?vg = "mkViews pg iI GroupBy ?G" and ?vi = "mkViews pg iI IndexBy ?I"
    and ?vo = "mkViews pg iO SortBy ?O"
  let ?r1 = "(emptyRegistry :: ('b, 'a) registry)\<lparr>props := ?vg\<rparr>"
  let ?r2 = "?r1\<lparr>props := ?vg @ ?vi\<rparr>"
  let ?r3 = "?r2\<lparr>props := ?vg @ ?vi @ ?vo\<rparr>"
  have dk: "distinct (map iI ?G @ map iI ?I @ map iO ?O)"
    using d by (simp add: declared_keys)
  have "distinct (map fst (props (emptyRegistry :: ('b, 'a) registry)) @ map iI ?G)"
    using dk by (simp add: emptyRegistry_def)
  from setupIndices_ok[OF this, of pg GroupBy] obtain g where
    g: "setupIndices pg (group cfg) iI GroupBy emptyRegistry = Inr (g, ?r1)"
       "the_list g = map iI ?G"
    by (auto simp: emptyRegistry_def)
  have "distinct (map iI ?G @ map iI ?I)"
    using dk by auto
  then have "distinct (map fst (props ?r1) @ map iI ?I)"
    by (simp add: mkViews_keys)
  from setupIndices_ok[OF this, of pg IndexBy] obtain i where
    i: "setupIndices pg (index cfg) iI IndexBy ?r1 = Inr (i, ?r2)"
       "the_list i = map iI ?I"
    by auto
  have "distinct (map fst (props ?r2) @ map iO ?O)"
    using dk by (simp add: mkViews_keys)
  from setupIndices_ok[OF this, of pg SortBy] obtain ord where
    ord: "setupIndices pg (order cfg) iO SortBy ?r2 = Inr (ord, ?r3)"
       "the_list ord = map iO ?O"
    by auto
  let ?r4 = "?r3\<lparr>indexNames := unionNames [g, i, ord]\<rparr>"
  have u: "unionNames [g, i, ord] = map iI ?G @ map iI ?I @ map iO ?O"
    using unionNames_distinct[of g i ord] dk by (simp add: g(2) i(2) ord(2))
  have p4: "props ?r4 = ?vg @ ?vi @ ?vo" and e4: "elems ?r4 = []"
    and n4: "indexNames ?r4 = map iI ?G @ map iI ?I @ map iO ?O"
    by (simp_all add: u emptyRegistry_def)
  have raw4: "raw ?r4 = []" and h4: "hidden ?r4 = []" and a4: "allocs ?r4 = 0"
    by (simp_all add: emptyRegistry_def)
  have c4: "consistent ?r4"
    unfolding consistent_def p4 e4 n4 raw4
  proof (intro conjI allI impI)
    show "distinct (map fst (?vg @ ?vi @ ?vo))"
      using dk by (simp only: map_append mkViews_keys)
    show "map iI ?G @ map iI ?I @ map iO ?O = map fst (?vg @ ?vi @ ?vo)"
      by (simp only: map_append mkViews_keys)
    show "([] :: 'a list) = []" by simp
    fix n v ref val
    assume "map_of (?vg @ ?vi @ ?vo) n = Some v"
    then have "(n, v) \<in> set ?vg \<or> (n, v) \<in> set ?vi \<or> (n, v) \<in> set ?vo"
      by (auto dest!: map_of_SomeD)
    then have "v_cache v = JsUndefined"
      using mkViews_cache by blast
    moreover assume "v_cache v = JsObject ref val"
    ultimately show "val = apply_op (v_op v) [] (v_from v)" by simp
  qed
  have d4: "decls ?r4 = declared iI iO pg cfg"
    by (simp add: decls_def declared_def decls_mkViews)
  define r5 where
    "r5 = (case initialSet cfg of None \<Rightarrow> ?r4 | Some xs \<Rightarrow> snd (wrapped (CPush xs) ?r4))"
  have seed: "(case initialSet cfg of None \<Rightarrow> (Inr RUndefined, ?r4)
               | Some xs \<Rightarrow> invoke (CPush xs) ?r4) =
              (Inr (case initialSet cfg of None \<Rightarrow> RUndefined
                    | Some xs \<Rightarrow> fst (orig (CPush xs) (raw ?r4))), r5)"
    unfolding r5_def by (cases "initialSet cfg") (simp_all only: option.case invoke_push_unhidden[OF h4])
  have c5: "consistent r5"
    unfolding r5_def using c4 by (cases "initialSet cfg") (simp_all only: option.case consistent_wrapped)
  have d5: "decls r5 = declared iI iO pg cfg"
    unfolding r5_def using d4 by (cases "initialSet cfg") (simp_all only: option.case wrapped_frame)
  have h5: "hidden r5 = []"
    unfolding r5_def using h4 by (cases "initialSet cfg") (simp_all only: option.case wrapped_frame)
  have u4: "untampered ?r4"
    by (simp add: untampered_def emptyRegistry_def)
  have u5: "untampered r5"
    unfolding r5_def using u4 by (cases "initialSet cfg") (simp_all only: option.case untampered_wrapped)
  have a5: "allocs r5 = 0"
    unfolding r5_def using a4 by (cases "initialSet cfg") (simp_all only: option.case wrapped_frame)
  have raw5: "raw r5 = the_list (initialSet cfg)"
    unfolding r5_def using raw4 by (cases "initialSet cfg") (simp_all add: wrapped_frame)
  have R: "Registry iI iO pg cfg = Inr (if immutable cfg then r5\<lparr>hidden := [Push, Splice]\<rparr> else r5)"
    unfolding Registry_def
    by (simp only: g(1) i(1) ord(1) Let_def sum.case prod.case seed)
  show ?thesis
    using c5 d5 h5 a5 raw5 u5 unfolding R
    by (simp add: consistent_hidden decls_other_fields untampered_other_fields)
qed

lemma Registry_fail:
  assumes nd: "\<not> distinct (map fst (declared iI iO pg cfg))"
  shows "\<exists>n. Registry iI iO pg cfg = Inl (CannotRedefine n)"
proof -
  let ?G = "the_list (group cfg)" and ?I = "the_list (index cfg)" and ?O = "the_list (order cfg)"
  let ?vg = "mkViews pg iI GroupBy ?G" and ?vi = "mkViews pg iI IndexBy ?I"
  let ?r0 = "emptyRegistry :: ('b, 'a) registry"
  let ?r1 = "?r0\<lparr>props := ?vg\<rparr>"
  let ?r2 = "?r1\<lparr>props := ?vg @ ?vi\<rparr>"
  have e: "props ?r0 = []" by (simp add: emptyRegistry_def)
  show ?thesis
  proof (cases "distinct (map iI ?G)")
    case False
    then have "\<not> distinct (map fst (props ?r0) @ map iI ?G)" by (simp add: e)
    from setupIndices_fail[OF this, of pg GroupBy] obtain n where
      "setupIndices pg (group cfg) iI GroupBy ?r0 = Inl (CannotRedefine n)"
      by (auto simp: e)
    then show ?thesis by (simp add: Registry_def)
  next
    case dG: True
    then have "distinct (map fst (props ?r0) @ map iI ?G)" by (simp add: e)
    from setupIndices_ok[OF this, of pg GroupBy] obtain g where
      g: "setupIndices pg (group cfg) iI GroupBy ?r0 = Inr (g, ?r1)"
      by (auto simp: e)
    show ?thesis
    proof (cases "distinct (map iI ?G @ map iI ?I)")
      case False
      then have "\<not> distinct (map fst (props ?r1) @ map iI ?I)" by (simp add: mkViews_keys)
      moreover have "distinct (map fst (props ?r1))" using dG by (simp add: mkViews_keys)
      ultimately obtain n where
        "setupIndices pg (index cfg) iI IndexBy ?r1 = Inl (CannotRedefine n)"
        using setupIndices_fail[of ?r1 iI "index cfg" pg IndexBy] by auto
      then show ?thesis by (simp add: Registry_def g)
    next
      case dI: True
      then have "distinct (map fst (props ?r1) @ map iI ?I)" by (simp add: mkViews_keys)
      from setupIndices_ok[OF this, of pg IndexBy] obtain i where
        i: "setupIndices pg (index cfg) iI IndexBy ?r1 = Inr (i, ?r2)"
        by auto
      have "\<not> distinct (map fst (props ?r2) @ map iO ?O)"
        using nd by (simp add: declared_keys mkViews_keys)
      moreover have "distinct (map fst (props ?r2))" using dI by (simp add: mkViews_keys)
      ultimately obtain n where
        "setupIndices pg (order cfg) iO SortBy ?r2 = Inl (CannotRedefine n)"
        using setupIndices_fail[of ?r2 iO "order cfg" pg SortBy] by auto
      then show ?thesis by (simp add: Registry_def g i)
    qed
  qed
qed

subsection \<open>Constructed registries\<close>

lemma reachable:
  assumes "Registry iI iO pg cfg = Inr r0"
  shows "consistent (run evs r0)"
    and "decls (run evs r0) = declared iI iO pg cfg"
    and "hidden (run evs r0) = (if immutable cfg then [Push, Splice] else [])"
    and "untampered (run evs r0)"
proof -
  have d: "distinct (map fst (declared iI iO pg cfg))"
  proof (rule ccontr)
    assume "\<not> distinct (map fst (declared iI iO pg cfg))"
    from Registry_fail[OF this] assms show False by auto
  qed
  from Registry_ok[OF d] assms have
    "consistent r0" "decls r0 = declared iI iO pg cfg"
    "hidden r0 = (if immutable cfg then [Push, Splice] else [])"
    "untampered r0"
    by auto
  then show "consistent (run evs r0)"
    and "decls (run evs r0) = declared iI iO pg cfg"
    and "hidden (run evs r0) = (if immutable cfg then [Push, Splice] else [])"
    and "untampered (run evs r0)"
    by (simp_all add: consistent_run run_decls run_hidden untampered_run)
qed

lemma declared_view:
  assumes "consistent r" and "decls r = ds" and "(n, g, f) \<in> set ds"
  shows "\<exists>v. map_of (props r) n = Some v \<and> v_from v = g \<and> v_op v = f"
proof -
  from assms(2,3) obtain v where "(n, v) \<in> set (props r)" "v_from v = g" "v_op v = f"
    by (auto simp: decls_def)
  moreover have "distinct (map fst (props r))"
    using assms(1) by (simp add: consistent_def)
  ultimately show ?thesis
    by (auto intro: map_of_is_SomeI)
qed

lemma read_declared:
  assumes "consistent r" and "map_of (props r) n = Some v"
  shows "\<exists>ref. fst (read n r) = JsObject ref (apply_op (v_op v) (raw r) (v_from v))"
proof (cases "v_cache v")
  case JsUndefined
  then show ?thesis using assms(2) by (simp add: read_def Let_def)
next
  case JsFalse
  then show ?thesis using assms(2) by (simp add: read_def Let_def)
next
  case (JsObject ref val)
  then have "val = apply_op (v_op v) (raw r) (v_from v)"
    using assms unfolding consistent_def by blast
  then show ?thesis using assms(2) JsObject by (simp add: read_def)
qed

subsection \<open>The example registries\<close>

lemma exRegistry_constructed:
  "Registry exInflectIndex exInflectOrder exPathGetter exConfig = Inr exRegistry"
  by (simp add: Registry_def exConfig_def exRegistry_def setupIndices_def defineProperty_def
      exInflectIndex_def exInflectOrder_def unionNames_def emptyRegistry_def invoke_def
      wrapped_def clearIndices_def assign_def setter_def Let_def)

lemma exDeclared:
  "declared exInflectIndex exInflectOrder exPathGetter exConfig =
     [(''by_n'', exPathGetter ''n'', GroupBy), (''by_id'', exPathGetter ''id'', IndexBy),
      (''in_n_Order'', exPathGetter ''n'', SortBy)]"
  by (simp add: declared_def exConfig_def exInflectIndex_def exInflectOrder_def)

lemma exLater_run: "run exEvents exRegistry = exLater"
  by (simp add: run_def exEvents_def exRegistry_def exLater_def read_def invoke_def wrapped_def
      clearIndices_def assign_def setter_def Let_def)

lemma exMember:
  "(''by_n'', exPathGetter ''n'', GroupBy) \<in> set (declared exInflectIndex exInflectOrder exPathGetter exConfig)"
  "(''by_id'', exPathGetter ''id'', IndexBy) \<in> set (declared exInflectIndex exInflectOrder exPathGetter exConfig)"
  "(''in_n_Order'', exPathGetter ''n'', SortBy) \<in> set (declared exInflectIndex exInflectOrder exPathGetter exConfig)"
  by (simp_all add: exDeclared)

section \<open>The claims of the specification\<close>

text \<open>
  Claim C1 (invalidate, then recompute). On a registry that was constructed without the
  immutable flag and has been used in any way since, after the call of a wrapped method
  (\<^verbatim>\<open>push\<close>, \<^verbatim>\<open>pop\<close>, \<^verbatim>\<open>shift\<close>, \<^verbatim>\<open>unshift\<close>,
  \<^verbatim>\<open>splice\<close>, \<^verbatim>\<open>reverse\<close>) the cache of every declared view is absent, and
  the next read of the view returns a new object whose value is what the view's builder gives
  on the present \<^verbatim>\<open>raw\<close> with the view's path getter.
\<close>

theorem invalidate_then_recompute:
  assumes "Registry inflectIndex inflectOrder pathGetter config = Inr r0"
    and "\<not> immutable config"
    and "r = run evs r0"
    and "invoke c r = (res, r')"
    and "(name, getter, f) \<in> set (declared inflectIndex inflectOrder pathGetter config)"
  shows "(\<exists>v. map_of (props r') name = Some v \<and> \<not> truthy (v_cache v)) \<and>
         fst (read name r') = JsObject (allocs r') (apply_op f (raw r') getter)"
proof -
  have c: "consistent r" and d: "decls r = declared inflectIndex inflectOrder pathGetter config"
    and h: "hidden r = []"
    using reachable[OF assms(1), of evs] assms(2,3) by simp_all
  have r': "r' = snd (wrapped c r)"
    using assms(4) h by (simp add: invoke_def)
  have c': "consistent r'" and d': "decls r' = declared inflectIndex inflectOrder pathGetter config"
    using c d by (simp_all add: r' consistent_wrapped wrapped_frame)
  from declared_view[OF c' d' assms(5)] obtain v where
    v: "map_of (props r') name = Some v" "v_from v = getter" "v_op v = f"
    by blast
  have "indexNames r = map fst (props r)"
    using c by (simp add: consistent_def)
  from wrapped_cache_absent[OF this] v(1) have absent: "v_cache v = JsFalse"
    unfolding r' by blast
  then have "\<not> truthy (v_cache v)" by simp
  from read_absent[OF v(1) this] v show ?thesis
    using absent by auto
qed

theorem invalidate_then_recompute_witness:
  "Registry exInflectIndex exInflectOrder exPathGetter exConfig = Inr exRegistry \<and>
   \<not> immutable exConfig \<and>
   invoke CShift (run exEvents exRegistry) =
     (Inr (RElement (1, 3)), exLater\<lparr>elems := [(2, 1), (1, 7)], raw := [(2, 1), (1, 7)]\<rparr>) \<and>
   (''by_id'', exPathGetter ''id'', IndexBy)
     \<in> set (declared exInflectIndex exInflectOrder exPathGetter exConfig) \<and>
   (\<exists>v. map_of (props (exLater\<lparr>elems := [(2, 1), (1, 7)], raw := [(2, 1), (1, 7)]\<rparr>)) ''by_id'' = Some v \<and>
        \<not> truthy (v_cache v)) \<and>
   fst (read ''by_id'' (exLater\<lparr>elems := [(2, 1), (1, 7)], raw := [(2, 1), (1, 7)]\<rparr>)) =
     JsObject 1 (Indexed (indexBy [(2, 1), (1, 7)] (exPathGetter ''id'')))"
proof -
  have i: "\<not> immutable exConfig" by (simp add: exConfig_def)
  have c: "invoke CShift (run exEvents exRegistry) =
     (Inr (RElement (1, 3)), exLater\<lparr>elems := [(2, 1), (1, 7)], raw := [(2, 1), (1, 7)]\<rparr>)"
    unfolding exLater_run
    by (simp add: exLater_def invoke_def wrapped_def clearIndices_def assign_def setter_def Let_def)
  from invalidate_then_recompute[OF exRegistry_constructed i refl c exMember(2)]
  show ?thesis
    using i c exRegistry_constructed exMember(2) by (simp add: exLater_def)
qed

text \<open>
  Claim C2 (mirror consistency). After the construction, seeding with
  \<^verbatim>\<open>config.initialSet\<close> included, and after every further use of the registry, the
  public sequence and \<^verbatim>\<open>this.raw\<close> have the same elements in the same order, and
  so the same length.
\<close>

theorem mirror_consistency:
  assumes "Registry inflectIndex inflectOrder pathGetter config = Inr r0"
  shows "elems (run evs r0) = raw (run evs r0) \<and> length (elems (run evs r0)) = length (raw (run evs r0))"
  using reachable(1)[OF assms, of evs] by (simp add: consistent_def)

theorem mirror_consistency_witness:
  "Registry exInflectIndex exInflectOrder exPathGetter exConfig = Inr exRegistry \<and>
   elems (run exEvents exRegistry) = [(1, 3), (2, 1), (1, 7)] \<and>
   raw (run exEvents exRegistry) = [(1, 3), (2, 1), (1, 7)]"
  using mirror_consistency[OF exRegistry_constructed, of exEvents] exRegistry_constructed
  by (simp add: exLater_run exLater_def)

text \<open>
  Claim C3 (immutable registries). The claim is that on a registry constructed with the
  immutable flag each of the six mutating methods is absent, so that calling it fails and the
  content never changes. The constructor hides \<^verbatim>\<open>push\<close> and
  \<^verbatim>\<open>splice\<close> only (line 46): on an immutable registry of two records a
  \<^verbatim>\<open>push\<close> and a \<^verbatim>\<open>splice\<close> throw and leave the registry as it is,
  while \<^verbatim>\<open>pop\<close>, \<^verbatim>\<open>shift\<close>, \<^verbatim>\<open>unshift\<close> and
  \<^verbatim>\<open>reverse\<close> are still callable and change both sequences.
\<close>

theorem immutable_registry_still_pops:
  "Registry exInflectIndex exInflectOrder exPathGetter immConfig = Inr immRegistry \<and>
   invoke (CPush [(3, 3)]) immRegistry = (Inl (NotAFunction Push), immRegistry) \<and>
   invoke (CSplice 0 1 []) immRegistry = (Inl (NotAFunction Splice), immRegistry) \<and>
   invoke CPop immRegistry =
     (Inr (RElement (2, 1)), immRegistry\<lparr>elems := [(1, 3)], raw := [(1, 3)]\<rparr>) \<and>
   invoke CShift immRegistry =
     (Inr (RElement (1, 3)), immRegistry\<lparr>elems := [(2, 1)], raw := [(2, 1)]\<rparr>) \<and>
   invoke (CUnshift [(3, 3)]) immRegistry =
     (Inr (RLength 3),
      immRegistry\<lparr>elems := [(3, 3), (1, 3), (2, 1)], raw := [(3, 3), (1, 3), (2, 1)]\<rparr>) \<and>
   invoke CReverse immRegistry =
     (Inr (RArray [(2, 1), (1, 3)]),
      immRegistry\<lparr>elems := [(2, 1), (1, 3)], raw := [(2, 1), (1, 3)]\<rparr>)"
  by (simp add: Registry_def immConfig_def immRegistry_def setupIndices_def unionNames_def
      emptyRegistry_def invoke_def wrapped_def clearIndices_def Let_def)

text \<open>
  Claim C4 (unique names). When two of the group, index and order declarations of a
  configuration derive the same public name, the constructor throws the
  \<^verbatim>\<open>TypeError\<close> of \<^verbatim>\<open>Object.defineProperty\<close> and returns no registry.
\<close>

theorem duplicate_names_rejected:
  assumes "\<not> distinct (map fst (declared inflectIndex inflectOrder pathGetter config))"
  shows "\<exists>name. Registry inflectIndex inflectOrder pathGetter config = Inl (CannotRedefine name)"
  using assms by (rule Registry_fail)

theorem duplicate_names_rejected_witness:
  "\<not> distinct (map fst (declared exInflectIndex exInflectOrder exPathGetter dupConfig)) \<and>
   Registry exInflectIndex exInflectOrder exPathGetter dupConfig = Inl (CannotRedefine ''by_kind'')"
proof -
  have d: "\<not> distinct (map fst (declared exInflectIndex exInflectOrder exPathGetter dupConfig))"
    by (simp add: declared_def dupConfig_def)
  from duplicate_names_rejected[OF d] obtain name where
    "Registry exInflectIndex exInflectOrder exPathGetter dupConfig = Inl (CannotRedefine name)" ..
  moreover have "Registry exInflectIndex exInflectOrder exPathGetter dupConfig \<noteq> Inl (CannotRedefine name)"
    if "name \<noteq> ''by_kind''"
    using that
    by (simp add: Registry_def dupConfig_def setupIndices_def defineProperty_def
        exInflectIndex_def emptyRegistry_def Let_def)
  ultimately show ?thesis using d by blast
qed




text \<open>
  Claim C6 (result of a wrapped method). A wrapped method returns what the un-wrapped
  primitive returns on \<^verbatim>\<open>this.raw\<close> with the same arguments; it applies the
  primitive to the public sequence and to \<^verbatim>\<open>this.raw\<close>, and the cache of every
  declared view is reset.
\<close>

theorem wrapped_returns_raw_result:
  assumes "Registry inflectIndex inflectOrder pathGetter config = Inr r0"
    and "r = run evs r0"
  shows "fst (wrapped c r) = Inr (fst (orig c (raw r))) \<and>
         elems (snd (wrapped c r)) = snd (orig c (elems r)) \<and>
         raw (snd (wrapped c r)) = snd (orig c (raw r)) \<and>
         (\<forall>(name, getter, f) \<in> set (declared inflectIndex inflectOrder pathGetter config).
            \<exists>v. map_of (props (snd (wrapped c r))) name = Some v \<and> v_cache v = JsFalse)"
proof -
  have c: "consistent r" and d: "decls r = declared inflectIndex inflectOrder pathGetter config"
    using reachable[OF assms(1), of evs] assms(2) by simp_all
  have c': "consistent (snd (wrapped c r))"
    and d': "decls (snd (wrapped c r)) = declared inflectIndex inflectOrder pathGetter config"
    using c d by (simp_all add: consistent_wrapped wrapped_frame)
  have n: "indexNames r = map fst (props r)"
    using c by (simp add: consistent_def)
  have "\<exists>v. map_of (props (snd (wrapped c r))) name = Some v \<and> v_cache v = JsFalse"
    if "(name, getter, f) \<in> set (declared inflectIndex inflectOrder pathGetter config)"
    for name getter f
    using declared_view[OF c' d' that] wrapped_cache_absent[OF n] by blast
  moreover have "fst (wrapped c r) = Inr (fst (orig c (raw r)))"
    by (simp add: wrapped_eq)
  ultimately show ?thesis
    by (simp add: wrapped_frame) blast
qed

theorem wrapped_returns_raw_result_witness:
  "Registry exInflectIndex exInflectOrder exPathGetter exConfig = Inr exRegistry \<and>
   fst (wrapped CPop (run exEvents exRegistry)) = Inr (RElement (1, 7)) \<and>
   elems (snd (wrapped CPop (run exEvents exRegistry))) = [(1, 3), (2, 1)] \<and>
   raw (snd (wrapped CPop (run exEvents exRegistry))) = [(1, 3), (2, 1)] \<and>
   (\<exists>v. map_of (props (snd (wrapped CPop (run exEvents exRegistry)))) ''in_n_Order'' = Some v \<and>
        v_cache v = JsFalse)"
  using wrapped_returns_raw_result[OF exRegistry_constructed refl, of CPop exEvents]
    exRegistry_constructed exMember(3)
  by (auto simp: exLater_run exLater_def)

text \<open>
  Claim C7 (index collisions). Reading an index-by view gives a mapping in which every
  key that some record of the collection resolves to is bound to the last record, in the
  present order of the collection, that resolves to this key.
\<close>

theorem index_last_write_wins:
  assumes "Registry inflectIndex inflectOrder pathGetter config = Inr r0"
    and "r = run evs r0"
    and "(name, getter, IndexBy) \<in> set (declared inflectIndex inflectOrder pathGetter config)"
    and "x \<in> set (raw r)" and "getter x = k"
  shows "\<exists>ref m. fst (read name r) = JsObject ref (Indexed m) \<and>
           m k = Some (last (filter (\<lambda>y. getter y = k) (raw r)))"
proof -
  have c: "consistent r" and d: "decls r = declared inflectIndex inflectOrder pathGetter config"
    using reachable[OF assms(1), of evs] assms(2) by simp_all
  from declared_view[OF c d assms(3)] obtain v where
    v: "map_of (props r) name = Some v" "v_from v = getter" "v_op v = IndexBy"
    by blast
  from read_declared[OF c v(1)] obtain ref where
    "fst (read name r) = JsObject ref (Indexed (indexBy (raw r) getter))"
    using v by auto
  moreover have "filter (\<lambda>y. getter y = k) (raw r) \<noteq> []"
    using assms(4,5) by (auto simp: filter_empty_conv)
  ultimately show ?thesis
    by (simp add: indexBy_last)
qed

theorem index_last_write_wins_witness:
  "Registry exInflectIndex exInflectOrder exPathGetter exConfig = Inr exRegistry \<and>
   (''by_id'', exPathGetter ''id'', IndexBy)
     \<in> set (declared exInflectIndex exInflectOrder exPathGetter exConfig) \<and>
   (1, 3) \<in> set (raw (run exEvents exRegistry)) \<and> exPathGetter ''id'' (1, 3) = 1 \<and>
   (\<exists>ref m. fst (read ''by_id'' (run exEvents exRegistry)) = JsObject ref (Indexed m) \<and>
      m 1 = Some (1, 7))"
proof -
  have x: "(1, 3) \<in> set (raw (run exEvents exRegistry))"
    by (simp add: exLater_run exLater_def)
  have k: "exPathGetter ''id'' (1, 3) = 1"
    by (simp add: exPathGetter_def)
  from index_last_write_wins[OF exRegistry_constructed refl exMember(2) x k]
  show ?thesis
    using exRegistry_constructed exMember(2) x k
    by (simp add: exLater_run exLater_def exPathGetter_def)
qed

text \<open>
  Claim C8 (stable order). Reading an order-by view gives a sequence with the same records
  as the collection, ascending in the resolved key, in which the records of each key keep the
  relative order they have in the collection; the read leaves \<^verbatim>\<open>this.raw\<close> and
  the public sequence as they are.
\<close>

theorem order_view_stable:
  assumes "Registry inflectIndex inflectOrder pathGetter config = Inr r0"
    and "r = run evs r0"
    and "(name, getter, SortBy) \<in> set (declared inflectIndex inflectOrder pathGetter config)"
  shows "\<exists>ref ys. fst (read name r) = JsObject ref (Ordered ys) \<and>
           mset ys = mset (raw r) \<and> sorted (map getter ys) \<and>
           (\<forall>k. filter (\<lambda>x. getter x = k) ys = filter (\<lambda>x. getter x = k) (raw r)) \<and>
           raw (snd (read name r)) = raw r \<and> elems (snd (read name r)) = elems r"
proof -
  have c: "consistent r" and d: "decls r = declared inflectIndex inflectOrder pathGetter config"
    using reachable[OF assms(1), of evs] assms(2) by simp_all
  from declared_view[OF c d assms(3)] obtain v where
    v: "map_of (props r) name = Some v" "v_from v = getter" "v_op v = SortBy"
    by blast
  from read_declared[OF c v(1)] obtain ref where
    "fst (read name r) = JsObject ref (Ordered (sortBy (raw r) getter))"
    using v by auto
  then show ?thesis
    by (simp add: sortBy_mset sortBy_sorted sortBy_stable read_frame)
qed

theorem order_view_stable_witness:
  "Registry exInflectIndex exInflectOrder exPathGetter exConfig = Inr exRegistry \<and>
   (''in_n_Order'', exPathGetter ''n'', SortBy)
     \<in> set (declared exInflectIndex exInflectOrder exPathGetter exConfig) \<and>
   fst (read ''in_n_Order'' (run exEvents exRegistry)) =
     JsObject 1 (Ordered [(2, 1), (1, 3), (1, 7)]) \<and>
   mset [(2, 1), (1, 3), (1, 7)] = mset (raw (run exEvents exRegistry)) \<and>
   sorted (map (exPathGetter ''n'') [(2, 1), (1, 3), (1, 7)]) \<and>
   (\<forall>k. filter (\<lambda>x. exPathGetter ''n'' x = k) [(2, 1), (1, 3), (1, 7)] =
        filter (\<lambda>x. exPathGetter ''n'' x = k) (raw (run exEvents exRegistry))) \<and>
   raw (snd (read ''in_n_Order'' (run exEvents exRegistry))) = raw (run exEvents exRegistry)"
proof -
  have val: "fst (read ''in_n_Order'' (run exEvents exRegistry)) =
      JsObject 1 (Ordered [(2, 1), (1, 3), (1, 7)])"
    by (simp add: exLater_run exLater_def read_def Let_def sortBy_def decorate_def
        exPathGetter_def less_eq_prod_def)
  from order_view_stable[OF exRegistry_constructed refl exMember(3), of exEvents]
  obtain ref ys where
    ys: "fst (read ''in_n_Order'' (run exEvents exRegistry)) = JsObject ref (Ordered ys)"
      "mset ys = mset (raw (run exEvents exRegistry))"
      "sorted (map (exPathGetter ''n'') ys)"
      "\<forall>k. filter (\<lambda>x. exPathGetter ''n'' x = k) ys =
           filter (\<lambda>x. exPathGetter ''n'' x = k) (raw (run exEvents exRegistry))"
      "raw (snd (read ''in_n_Order'' (run exEvents exRegistry))) = raw (run exEvents exRegistry)"
    by blast
  from ys(1) val have "ys = [(2, 1), (1, 3), (1, 7)]" by auto
  with ys(2-5) val exRegistry_constructed exMember(3) show ?thesis by blast
qed



text \<open>
  Claim C10 (frame of a read). Reading a property changes at most the cache of the view
  of that name: the public sequence, \<^verbatim>\<open>this.raw\<close>, \<^verbatim>\<open>_indexNames\<close>,
  the hidden methods, the path getter and builder of every view and the cache of every other
  view stay as they are. The view's cache becomes the returned value, which is the old cache
  when that was present, and the newly built object otherwise.
\<close>

theorem read_changes_own_cache_only:
  assumes "read name r = (c, r')"
  shows "elems r' = elems r \<and> raw r' = raw r \<and> indexNames r' = indexNames r \<and>
         hidden r' = hidden r \<and> decls r' = decls r \<and>
         foreign r' = foreign r \<and> leaked r' = leaked r \<and>
         (\<forall>other. other \<noteq> name \<longrightarrow> map_of (props r') other = map_of (props r) other) \<and>
         (\<forall>v. map_of (props r) name = Some v \<longrightarrow>
            map_of (props r') name = Some (v\<lparr>v_cache := c\<rparr>) \<and>
            (truthy (v_cache v) \<longrightarrow> c = v_cache v \<and> r' = r) \<and>
            (\<not> truthy (v_cache v) \<longrightarrow>
               c = JsObject (allocs r) (apply_op (v_op v) (raw r) (v_from v))))"
proof -
  have r': "r' = snd (read name r)" and c: "c = fst (read name r)"
    using assms by simp_all
  show ?thesis
    unfolding r' c
    by (auto simp: read_frame read_caller_parts read_props_other read_props_same read_absent)
       (simp_all add: read_def)
qed

theorem read_changes_own_cache_only_witness:
  "read ''by_n'' exLater =
     (JsObject 1 (Grouped (groupBy [(1, 3), (2, 1), (1, 7)] (exPathGetter ''n''))),
      snd (read ''by_n'' exLater)) \<and>
   elems (snd (read ''by_n'' exLater)) = [(1, 3), (2, 1), (1, 7)] \<and>
   raw (snd (read ''by_n'' exLater)) = [(1, 3), (2, 1), (1, 7)] \<and>
   ''by_id'' \<noteq> ''by_n'' \<and>
   map_of (props (snd (read ''by_n'' exLater))) ''by_id'' = map_of (props exLater) ''by_id'' \<and>
   read ''by_n'' (snd (read ''by_n'' exLater)) =
     (JsObject 1 (Grouped (groupBy [(1, 3), (2, 1), (1, 7)] (exPathGetter ''n''))),
      snd (read ''by_n'' exLater))"
proof -
  let ?c = "JsObject 1 (Grouped (groupBy [(1, 3), (2, 1), (1, 7)] (exPathGetter ''n'')))
              :: (nat, nat \<times> nat) cache"
  let ?v = "\<lparr>v_from = exPathGetter ''n'', v_op = GroupBy, v_cache = JsFalse\<rparr>
              :: (nat, nat \<times> nat) view"
  let ?r1 = "snd (read ''by_n'' exLater)"
  have r: "read ''by_n'' exLater = (?c, ?r1)"
    by (simp add: exLater_def read_def Let_def)
  have v: "map_of (props exLater) ''by_n'' = Some ?v"
    by (simp add: exLater_def)
  note first = read_changes_own_cache_only[OF r]
  from first v have v1: "map_of (props ?r1) ''by_n'' = Some (?v\<lparr>v_cache := ?c\<rparr>)"
    by blast
  have "read ''by_n'' ?r1 = (fst (read ''by_n'' ?r1), snd (read ''by_n'' ?r1))"
    by simp
  from read_changes_own_cache_only[OF this] v1
  have "fst (read ''by_n'' ?r1) = ?c \<and> snd (read ''by_n'' ?r1) = ?r1"
    by simp
  then have second: "read ''by_n'' ?r1 = (?c, ?r1)"
    by (simp add: prod_eq_iff)
  from first have "elems ?r1 = elems exLater" "raw ?r1 = raw exLater"
    "map_of (props ?r1) ''by_id'' = map_of (props exLater) ''by_id''"
    by simp_all
  then show ?thesis
    using r second by (simp add: exLater_def)
qed

end
